theory Spec2Isabelle
  imports Main
begin

section \<open>Common model: strings, sizes, exceptions\<close>

text \<open>
  A \<^verbatim>\<open>std::string\<close> is a \<^typ>\<open>string\<close> (a list of bytes). A \<^verbatim>\<open>size_t\<close> value is a
  natural number below \<open>2 ^ 64\<close>; where the source adds two caller-supplied sizes the
  wrap-around is written out (\<open>mod 2 ^ 64\<close>). Loop indices that are bounded by the size of
  a string cannot wrap and are plain naturals.

  Strings are unbounded lists: running out of memory (\<^verbatim>\<open>std::bad_alloc\<close>,
  \<^verbatim>\<open>std::length_error\<close>) is outside the model.

  The two exception classes the sources throw are the values of \<open>error\<close>.
  A function that mutates its \<^verbatim>\<open>std::string&\<close> argument returns the contents of that
  string after the call together with the exception thrown, if any; a function that
  returns a value returns \<open>Inl\<close> of the exception or \<open>Inr\<close> of the value.
\<close>

datatype error = OutOfRange | InvalidArgument

type_synonym mutated = "string \<times> error option"

definition SIZE_MOD :: nat where
  "SIZE_MOD = 2 ^ 64"

text \<open>\<^verbatim>\<open>std::toupper\<close> in the "C" locale, on an \<^verbatim>\<open>unsigned char\<close>.\<close>

definition toupper :: "char \<Rightarrow> char" where
  "toupper c = (if 97 \<le> (of_char c :: nat) \<and> (of_char c :: nat) \<le> 122
                then char_of ((of_char c :: nat) - 32) else c)"

text \<open>
  The members of \<^verbatim>\<open>std::string\<close> the sources call. Each of \<^verbatim>\<open>substr\<close>, \<^verbatim>\<open>insert\<close> and
  \<^verbatim>\<open>erase\<close> throws \<^verbatim>\<open>std::out_of_range\<close> when \<open>pos > size()\<close> and has no effect then;
  \<^verbatim>\<open>substr\<close> and \<^verbatim>\<open>erase\<close> cut the count down to what is left after \<open>pos\<close>.
\<close>

definition substr :: "string \<Rightarrow> nat \<Rightarrow> nat \<Rightarrow> error + string" where
  "substr s pos n =
     (if pos > length s then Inl OutOfRange
      else Inr (take (min n (length s - pos)) (drop pos s)))"

definition string_insert :: "string \<Rightarrow> nat \<Rightarrow> string \<Rightarrow> mutated" where
  "string_insert s pos str =
     (if pos > length s then (s, Some OutOfRange)
      else (take pos s @ str @ drop pos s, None))"

definition string_erase :: "string \<Rightarrow> nat \<Rightarrow> nat \<Rightarrow> mutated" where
  "string_erase s pos n =
     (if pos > length s then (s, Some OutOfRange)
      else (take pos s @ drop (pos + min n (length s - pos)) s, None))"

section \<open>Mutation primitives (mutation.cpp)\<close>

definition pointMutation :: "string \<Rightarrow> nat \<Rightarrow> char \<Rightarrow> mutated" where
  "pointMutation seq pos newBase =
     (if pos \<ge> length seq then (seq, Some OutOfRange)
      else (seq[pos := newBase], None))"

definition insertion :: "string \<Rightarrow> nat \<Rightarrow> string \<Rightarrow> mutated" where
  "insertion seq pos ins =
     (if pos > length seq then (seq, Some OutOfRange)
      else string_insert seq pos ins)"

definition deletion :: "string \<Rightarrow> nat \<Rightarrow> nat \<Rightarrow> mutated" where
  "deletion seq pos len =
     (if (pos + len) mod SIZE_MOD > length seq then (seq, Some OutOfRange)
      else string_erase seq pos len)"

section \<open>Randomized batch driver (mutation.cpp)\<close>

text \<open>
  The random source is a parameter: \<open>g k\<close> is the \<open>k\<close>-th raw value the generator
  produces, any natural number, and a driver state carries the number of values used so
  far. A \<^verbatim>\<open>uniform_int_distribution(a, b)\<close> turns one raw value into a member of the
  closed range from \<open>a\<close> to \<open>b\<close>, and every member of the range is the image of some
  raw value.
\<close>

type_synonym rng = "nat \<Rightarrow> nat"

definition uniform_int :: "nat \<Rightarrow> nat \<Rightarrow> nat \<Rightarrow> nat" where
  "uniform_int a b r = a + r mod (b - a + 1)"

definition typeDist :: "nat \<Rightarrow> nat" where
  "typeDist r = uniform_int 0 2 r"

definition baseDist :: "nat \<Rightarrow> nat" where
  "baseDist r = uniform_int 0 3 r"

definition indelSizeDist :: "nat \<Rightarrow> nat \<Rightarrow> nat" where
  "indelSizeDist maxIndelSize r = uniform_int 1 (max 1 maxIndelSize) r"

definition bases :: string where
  "bases = ''ATCG''"

datatype MutationType = Point | Insertion | Deletion

text \<open>\<^verbatim>\<open>static_cast<MutationType>\<close>: the enumerators are numbered 0, 1, 2.\<close>

definition cast_MutationType :: "nat \<Rightarrow> MutationType option" where
  "cast_MutationType t =
     (if t = 0 then Some Point else if t = 1 then Some Insertion
      else if t = 2 then Some Deletion else None)"

text \<open>The loop that draws the \<open>len\<close> bases of an insertion, one raw value each.\<close>

function ins_loop :: "rng \<Rightarrow> nat \<Rightarrow> nat \<Rightarrow> nat \<Rightarrow> string \<Rightarrow> string \<times> nat" where
  "ins_loop g len j k ins =
     (if j < len then ins_loop g len (j + 1) (k + 1) (ins @ [bases ! baseDist (g k)])
      else (ins, k))"
  by pat_completeness auto
termination
  by (relation "measure (\<lambda>(g, len, j, k, ins). len - j)") auto

declare ins_loop.simps [simp del]

text \<open>
  One iteration of the driver's loop, after the test for an empty sequence: from the
  sequence and the number of raw values used, to the sequence and that number after the
  iteration, with the exception thrown by the primitive, if any. \<open>seq.size() - 1\<close> and
  \<open>seq.size() - pos\<close> are taken of a non-empty sequence and a position below its size.
\<close>

definition mutate_once :: "rng \<Rightarrow> nat \<Rightarrow> string \<times> nat \<Rightarrow> (string \<times> nat) \<times> error option" where
  "mutate_once g maxIndelSize st =
     (case st of (seq, k) \<Rightarrow>
        let type = typeDist (g k);
            pos = uniform_int 0 (length seq - 1) (g (k + 1))
        in case cast_MutationType type of
             Some Point \<Rightarrow>
               (let newBase = bases ! baseDist (g (k + 2))
                in case pointMutation seq pos newBase of (seq', e) \<Rightarrow> ((seq', k + 3), e))
           | Some Insertion \<Rightarrow>
               (let len = indelSizeDist maxIndelSize (g (k + 2))
                in case ins_loop g len 0 (k + 3) [] of (ins, k') \<Rightarrow>
                     (case insertion seq pos ins of (seq', e) \<Rightarrow> ((seq', k'), e)))
           | Some Deletion \<Rightarrow>
               (let len = indelSizeDist maxIndelSize (g (k + 2));
                    len' = min len (length seq - pos)
                in case deletion seq pos len' of (seq', e) \<Rightarrow> ((seq', k + 3), e))
           | None \<Rightarrow> ((seq, k + 2), None))"

text \<open>The \<^verbatim>\<open>for\<close> loop over \<open>i\<close>; an exception leaves it at once.\<close>

function mutation_loop ::
  "rng \<Rightarrow> nat \<Rightarrow> nat \<Rightarrow> nat \<Rightarrow> string \<times> nat \<Rightarrow> (string \<times> nat) \<times> error option" where
  "mutation_loop g maxIndelSize numMutations i st =
     (if i < numMutations then
        (if fst st = [] then (st, None)
         else (case mutate_once g maxIndelSize st of
                 (st', Some e) \<Rightarrow> (st', Some e)
               | (st', None) \<Rightarrow> mutation_loop g maxIndelSize numMutations (i + 1) st'))
      else (st, None))"
  by pat_completeness auto
termination
  by (relation "measure (\<lambda>(g, maxIndelSize, numMutations, i, st). numMutations - i)") auto

declare mutation_loop.simps [simp del]

definition simulateRandomMutations :: "rng \<Rightarrow> string \<Rightarrow> nat \<Rightarrow> nat \<Rightarrow> mutated" where
  "simulateRandomMutations g seq numMutations maxIndelSize =
     (if seq = [] \<or> numMutations = 0 then (seq, None)
      else (case mutation_loop g maxIndelSize numMutations 0 (seq, 0) of
              ((seq', k), e) \<Rightarrow> (seq', e)))"

text \<open>A generator that produces the listed raw values and zeros after them.\<close>

definition draws_of :: "nat list \<Rightarrow> rng" where
  "draws_of xs k = (if k < length xs then xs ! k else 0)"

subsection \<open>The calls a run makes\<close>

text \<open>
  The source keeps no record of what it does. To speak of the edits of a run, the loop
  is repeated here with one more component, the list of the calls made to the three
  primitives that returned, in order; it does not influence the rest of the state.
\<close>

datatype edit = PointCall nat char | InsertionCall nat string | DeletionCall nat nat

fun apply_edit :: "string \<Rightarrow> edit \<Rightarrow> mutated" where
  "apply_edit seq (PointCall pos newBase) = pointMutation seq pos newBase"
| "apply_edit seq (InsertionCall pos ins) = insertion seq pos ins"
| "apply_edit seq (DeletionCall pos len) = deletion seq pos len"

definition next_edit :: "rng \<Rightarrow> nat \<Rightarrow> string \<times> nat \<Rightarrow> edit option \<times> nat" where
  "next_edit g maxIndelSize st =
     (case st of (seq, k) \<Rightarrow>
        let type = typeDist (g k);
            pos = uniform_int 0 (length seq - 1) (g (k + 1))
        in case cast_MutationType type of
             Some Point \<Rightarrow> (Some (PointCall pos (bases ! baseDist (g (k + 2)))), k + 3)
           | Some Insertion \<Rightarrow>
               (let len = indelSizeDist maxIndelSize (g (k + 2))
                in case ins_loop g len 0 (k + 3) [] of (ins, k') \<Rightarrow>
                     (Some (InsertionCall pos ins), k'))
           | Some Deletion \<Rightarrow>
               (let len = indelSizeDist maxIndelSize (g (k + 2))
                in (Some (DeletionCall pos (min len (length seq - pos))), k + 3))
           | None \<Rightarrow> (None, k + 2))"

definition list_of_option :: "'a option \<Rightarrow> 'a list" where
  "list_of_option x = (case x of None \<Rightarrow> [] | Some y \<Rightarrow> [y])"

function logged_loop ::
  "rng \<Rightarrow> nat \<Rightarrow> nat \<Rightarrow> nat \<Rightarrow> (string \<times> nat) \<times> edit list
     \<Rightarrow> ((string \<times> nat) \<times> edit list) \<times> error option" where
  "logged_loop g maxIndelSize numMutations i sl =
     (if i < numMutations then
        (if fst (fst sl) = [] then (sl, None)
         else (case mutate_once g maxIndelSize (fst sl) of
                 (st', Some e) \<Rightarrow> ((st', snd sl), Some e)
               | (st', None) \<Rightarrow>
                   logged_loop g maxIndelSize numMutations (i + 1)
                     (st', snd sl @ list_of_option (fst (next_edit g maxIndelSize (fst sl))))))
      else (sl, None))"
  by pat_completeness auto
termination
  by (relation "measure (\<lambda>(g, maxIndelSize, numMutations, i, sl). numMutations - i)") auto

declare logged_loop.simps [simp del]

definition applied_edits :: "rng \<Rightarrow> string \<Rightarrow> nat \<Rightarrow> nat \<Rightarrow> edit list" where
  "applied_edits g seq numMutations maxIndelSize =
     (if seq = [] \<or> numMutations = 0 then []
      else snd (fst (logged_loop g maxIndelSize numMutations 0 ((seq, 0), []))))"

text \<open>An edit is within bounds for a sequence when its primitive accepts it there.\<close>

fun in_bounds :: "string \<Rightarrow> edit \<Rightarrow> bool" where
  "in_bounds seq (PointCall pos newBase) = (pos < length seq)"
| "in_bounds seq (InsertionCall pos ins) = (pos < length seq)"
| "in_bounds seq (DeletionCall pos len) = (pos < length seq \<and> pos + len \<le> length seq)"

text \<open>
  Replaying a list of edits through the primitives, one after the other, each on the
  result of the one before; an exception ends the replay.
\<close>

fun replay :: "string \<Rightarrow> edit list \<Rightarrow> mutated" where
  "replay seq [] = (seq, None)"
| "replay seq (c # cs) =
     (case apply_edit seq c of
        (seq', None) \<Rightarrow> replay seq' cs
      | (seq', Some e) \<Rightarrow> (seq', Some e))"

text \<open>Every edit of the list is within bounds for the sequence it is applied to.\<close>

fun all_in_bounds :: "string \<Rightarrow> edit list \<Rightarrow> bool" where
  "all_in_bounds seq [] = True"
| "all_in_bounds seq (c # cs) = (in_bounds seq c \<and> all_in_bounds (fst (apply_edit seq c)) cs)"

section \<open>ORF scanner (analysis.cpp)\<close>

record ORF =
  start :: nat
  end_pos :: nat
  frame :: int

definition startCodon :: string where
  "startCodon = ''AUG''"

definition stopCodons :: "string list" where
  "stopCodons = [''UAA'', ''UAG'', ''UGA'']"

text \<open>The range-for that upper-cases a copied codon in place.\<close>

definition upper :: "string \<Rightarrow> string" where
  "upper s = map toupper s"

text \<open>
  The innermost loop, from \<open>j\<close> on: it appends the ORF of the first stop codon found
  and breaks, or runs off the end and appends nothing.
\<close>

function stop_loop :: "string \<Rightarrow> nat \<Rightarrow> int \<Rightarrow> nat \<Rightarrow> ORF list \<Rightarrow> error + ORF list" where
  "stop_loop rna i fr j orfs =
     (if j + 3 \<le> length rna then
        (case substr rna j 3 of
           Inl e \<Rightarrow> Inl e
         | Inr sc \<Rightarrow>
             if upper sc = stopCodons ! 0 \<or> upper sc = stopCodons ! 1 \<or> upper sc = stopCodons ! 2
             then Inr (orfs @ [\<lparr>start = i, end_pos = j + 3, frame = fr\<rparr>])
             else stop_loop rna i fr (j + 3) orfs)
      else Inr orfs)"
  by pat_completeness auto
termination
  by (relation "measure (\<lambda>(rna, i, fr, j, orfs). length rna - j)") auto

declare stop_loop.simps [simp del]

text \<open>The loop over the codon-aligned positions \<open>i\<close> of one frame.\<close>

function start_loop :: "string \<Rightarrow> int \<Rightarrow> nat \<Rightarrow> ORF list \<Rightarrow> error + ORF list" where
  "start_loop rna fr i orfs =
     (if i + 3 \<le> length rna then
        (case substr rna i 3 of
           Inl e \<Rightarrow> Inl e
         | Inr codon \<Rightarrow>
             if upper codon = startCodon
             then (case stop_loop rna i fr (i + 3) orfs of
                     Inl e \<Rightarrow> Inl e
                   | Inr orfs' \<Rightarrow> start_loop rna fr (i + 3) orfs')
             else start_loop rna fr (i + 3) orfs)
      else Inr orfs)"
  by pat_completeness auto
termination
  by (relation "measure (\<lambda>(rna, fr, i, orfs). length rna - i)") auto

declare start_loop.simps [simp del]

text \<open>
  The loop over the frames. \<^verbatim>\<open>size_t i = frame\<close> converts a non-negative \<^verbatim>\<open>int\<close>.
\<close>

function frame_loop :: "string \<Rightarrow> int \<Rightarrow> ORF list \<Rightarrow> error + ORF list" where
  "frame_loop rna fr orfs =
     (if fr < 3 then
        (case start_loop rna fr (nat fr) orfs of
           Inl e \<Rightarrow> Inl e
         | Inr orfs' \<Rightarrow> frame_loop rna (fr + 1) orfs')
      else Inr orfs)"
  by pat_completeness auto
termination
  by (relation "measure (\<lambda>(rna, fr, orfs). nat (3 - fr))") auto

declare frame_loop.simps [simp del]

definition findORFs :: "string \<Rightarrow> error + ORF list" where
  "findORFs rna = frame_loop rna 0 []"

subsection \<open>The reference algorithm, as the specification words it\<close>

text \<open>
  The codon-aligned positions of a frame: \<open>i = f, f + 3, f + 6, ...\<close> with
  \<open>i + 3 \<le> n\<close>, ascending.
\<close>

definition aligned :: "nat \<Rightarrow> nat \<Rightarrow> nat list" where
  "aligned f n = filter (\<lambda>i. (i - f) mod 3 = 0 \<and> i + 3 \<le> n) [f ..< n]"

definition codon_at :: "string \<Rightarrow> nat \<Rightarrow> string" where
  "codon_at rna i = map toupper (take 3 (drop i rna))"

definition is_stop :: "string \<Rightarrow> bool" where
  "is_stop c = (c = ''UAA'' \<or> c = ''UAG'' \<or> c = ''UGA'')"

text \<open>The first in-frame position after the start codon at \<open>i\<close> that holds a stop codon.\<close>

definition first_stop :: "string \<Rightarrow> nat \<Rightarrow> nat option" where
  "first_stop rna i = find (\<lambda>j. is_stop (codon_at rna j)) (aligned (i + 3) (length rna))"

text \<open>What position \<open>i\<close> of frame \<open>f\<close> contributes: one ORF or none.\<close>

definition orfs_at :: "string \<Rightarrow> int \<Rightarrow> nat \<Rightarrow> ORF list" where
  "orfs_at rna f i =
     (if codon_at rna i = ''AUG'' then
        (case first_stop rna i of
           Some j \<Rightarrow> [\<lparr>start = i, end_pos = j + 3, frame = f\<rparr>]
         | None \<Rightarrow> [])
      else [])"

definition frame_orfs :: "string \<Rightarrow> int \<Rightarrow> ORF list" where
  "frame_orfs rna f = concat (map (orfs_at rna f) (aligned (nat f) (length rna)))"

definition reference_ORFs :: "string \<Rightarrow> ORF list" where
  "reference_ORFs rna = concat (map (frame_orfs rna) [0, 1, 2])"

subsection \<open>Auxiliary notions for the proofs about the scanner\<close>

text \<open>The ORF list a stop search contributes, and the stop search started at any \<open>j\<close>.\<close>

definition orf_of_stop :: "nat \<Rightarrow> int \<Rightarrow> nat option \<Rightarrow> ORF list" where
  "orf_of_stop i fr r =
     (case r of Some j \<Rightarrow> [\<lparr>start = i, end_pos = j + 3, frame = fr\<rparr>] | None \<Rightarrow> [])"

definition stop_from :: "string \<Rightarrow> nat \<Rightarrow> nat option" where
  "stop_from rna j = find (\<lambda>j. is_stop (codon_at rna j)) (aligned j (length rna))"

section \<open>Codon usage (analysis.cpp)\<close>

text \<open>
  The inner loop over \<open>j\<close> builds one upper-cased codon and throws at a character
  outside the RNA alphabet. \<open>rna[i + j]\<close> is read below the size of the string, since
  \<open>i + 3 \<le> n\<close> when the loop is entered.
\<close>

function codon_loop :: "string \<Rightarrow> nat \<Rightarrow> nat \<Rightarrow> string \<Rightarrow> error + string" where
  "codon_loop rna i j codon =
     (if j < 3 then
        (let c = toupper (rna ! (i + j))
         in if c \<noteq> CHR ''A'' \<and> c \<noteq> CHR ''U'' \<and> c \<noteq> CHR ''C'' \<and> c \<noteq> CHR ''G''
            then Inl InvalidArgument
            else codon_loop rna i (j + 1) (codon @ [c]))
      else Inr codon)"
  by pat_completeness auto
termination
  by (relation "measure (\<lambda>(rna, i, j, codon). 3 - j)") auto

declare codon_loop.simps [simp del]

text \<open>
  \<^verbatim>\<open>++usage[codon]\<close> on a \<^verbatim>\<open>std::map\<close>: a missing key is entered with the count 0 first.
  A count is at most the number of codons of the string, so it cannot wrap.
\<close>

definition increment :: "(string \<rightharpoonup> nat) \<Rightarrow> string \<Rightarrow> (string \<rightharpoonup> nat)" where
  "increment usage codon =
     usage(codon \<mapsto> (case usage codon of None \<Rightarrow> 0 | Some c \<Rightarrow> c) + 1)"

function usage_loop :: "string \<Rightarrow> nat \<Rightarrow> (string \<rightharpoonup> nat) \<Rightarrow> error + (string \<rightharpoonup> nat)" where
  "usage_loop rna i usage =
     (if i + 3 \<le> length rna then
        (case codon_loop rna i 0 [] of
           Inl e \<Rightarrow> Inl e
         | Inr codon \<Rightarrow> usage_loop rna (i + 3) (increment usage codon))
      else Inr usage)"
  by pat_completeness auto
termination
  by (relation "measure (\<lambda>(rna, i, usage). length rna - i)") auto

declare usage_loop.simps [simp del]

definition codonUsage :: "string \<Rightarrow> error + (string \<rightharpoonup> nat)" where
  "codonUsage rna =
     (if length rna mod 3 \<noteq> 0 then Inl InvalidArgument
      else usage_loop rna 0 Map.empty)"

text \<open>The sum of all the counts of a usage map.\<close>

definition total_count :: "(string \<rightharpoonup> nat) \<Rightarrow> nat" where
  "total_count usage = (\<Sum>k \<in> dom usage. the (usage k))"

text \<open>A key of the usage map is well formed: three upper-case RNA letters.\<close>

definition valid_codon :: "string \<Rightarrow> bool" where
  "valid_codon k = (length k = 3 \<and> set k \<subseteq> {CHR ''A'', CHR ''U'', CHR ''C'', CHR ''G''})"

section \<open>Transcription (transcription.cpp)\<close>

text \<open>The range-for over the input, with the output string built so far.\<close>

fun transcribe_loop :: "string \<Rightarrow> string \<Rightarrow> error + string" where
  "transcribe_loop [] rna = Inr rna"
| "transcribe_loop (c # cs) rna =
     (let base = toupper c
      in if base = CHR ''A'' then transcribe_loop cs (rna @ [CHR ''A''])
         else if base = CHR ''T'' then transcribe_loop cs (rna @ [CHR ''U''])
         else if base = CHR ''C'' then transcribe_loop cs (rna @ [CHR ''C''])
         else if base = CHR ''G'' then transcribe_loop cs (rna @ [CHR ''G''])
         else Inl InvalidArgument)"

definition transcribeDNA :: "string \<Rightarrow> error + string" where
  "transcribeDNA dna = transcribe_loop dna []"

fun reverse_loop :: "string \<Rightarrow> string \<Rightarrow> error + string" where
  "reverse_loop [] dna = Inr dna"
| "reverse_loop (c # cs) dna =
     (let base = toupper c
      in if base = CHR ''A'' then reverse_loop cs (dna @ [CHR ''A''])
         else if base = CHR ''U'' then reverse_loop cs (dna @ [CHR ''T''])
         else if base = CHR ''C'' then reverse_loop cs (dna @ [CHR ''C''])
         else if base = CHR ''G'' then reverse_loop cs (dna @ [CHR ''G''])
         else Inl InvalidArgument)"

definition reverseTranscribe :: "string \<Rightarrow> error + string" where
  "reverseTranscribe rna = reverse_loop rna []"

text \<open>What transcription does to one valid upper-case base.\<close>

definition rna_base :: "char \<Rightarrow> char" where
  "rna_base c = (if c = CHR ''T'' then CHR ''U'' else c)"

section \<open>Properties of the mutation primitives\<close>

lemma deletion_in_range:
  "pos + len \<le> length seq \<Longrightarrow>
   deletion seq pos len = (take pos seq @ drop (pos + len) seq, None)"
proof -
  assume h: "pos + len \<le> length seq"
  have "(pos + len) mod SIZE_MOD \<le> pos + len" by simp
  with h have "\<not> (pos + len) mod SIZE_MOD > length seq" by linarith
  moreover from h have "min len (length seq - pos) = len" by simp
  moreover from h have "\<not> pos > length seq" by simp
  ultimately show ?thesis by (simp add: deletion_def string_erase_def)
qed

lemma deletion_no_wrap:
  assumes "pos + len < SIZE_MOD"
  shows "deletion seq pos len =
           (if pos + len > length seq then (seq, Some OutOfRange)
            else (take pos seq @ drop (pos + len) seq, None))"
proof (cases "pos + len > length seq")
  case True
  with assms show ?thesis by (simp add: deletion_def)
next
  case False
  then show ?thesis by (simp add: deletion_in_range)
qed

text \<open>
  C7. \<open>pointMutation\<close> throws \<open>OutOfRange\<close> and leaves the sequence as it was when
  \<open>pos \<ge> length\<close> (so also at \<open>pos = length\<close>); when \<open>pos < length\<close> it succeeds for any
  new base whatever, the character at \<open>pos\<close> becomes the new base, every other character
  and the length stay as they were.
\<close>

theorem pointMutation_spec:
  "(pos \<ge> length seq \<longrightarrow> pointMutation seq pos newBase = (seq, Some OutOfRange)) \<and>
   (pos < length seq \<longrightarrow>
      pointMutation seq pos newBase = (seq[pos := newBase], None) \<and>
      length (seq[pos := newBase]) = length seq \<and>
      seq[pos := newBase] ! pos = newBase \<and>
      (\<forall>i. i \<noteq> pos \<longrightarrow> seq[pos := newBase] ! i = seq ! i))"
  by (simp add: pointMutation_def)

theorem pointMutation_spec_witness:
  "pointMutation ''ACGT'' 4 (CHR ''G'') = (''ACGT'', Some OutOfRange) \<and>
   pointMutation ''ACGT'' 2 (CHR ''x'') = (''ACxT'', None)"
  using pointMutation_spec [where seq = "''ACGT''" and pos = 4 and newBase = "CHR ''G''"]
        pointMutation_spec [where seq = "''ACGT''" and pos = 2 and newBase = "CHR ''x''"]
  by simp

text \<open>
  C8. \<open>insertion\<close> throws \<open>OutOfRange\<close> and leaves the sequence as it was when
  \<open>pos > length\<close>; when \<open>pos \<le> length\<close> (appending at \<open>pos = length\<close> included) the
  fragment is spliced in before position \<open>pos\<close> and the length grows by exactly the
  length of the fragment.
\<close>

theorem insertion_spec:
  "(pos > length seq \<longrightarrow> insertion seq pos ins = (seq, Some OutOfRange)) \<and>
   (pos \<le> length seq \<longrightarrow>
      insertion seq pos ins = (take pos seq @ ins @ drop pos seq, None) \<and>
      length (take pos seq @ ins @ drop pos seq) = length seq + length ins)"
  by (auto simp add: insertion_def string_insert_def)

theorem insertion_spec_witness:
  "insertion ''ACGT'' 5 ''GGG'' = (''ACGT'', Some OutOfRange) \<and>
   insertion ''ACGT'' 4 ''GGG'' = (''ACGTGGG'', None) \<and>
   insertion ''ACGT'' 1 ''GGG'' = (''AGGGCGT'', None)"
  using insertion_spec [where seq = "''ACGT''" and pos = 5 and ins = "''GGG''"]
        insertion_spec [where seq = "''ACGT''" and pos = 4 and ins = "''GGG''"]
        insertion_spec [where seq = "''ACGT''" and pos = 1 and ins = "''GGG''"]
  by simp

text \<open>
  C4. The specification asks that \<open>deletion\<close> throw \<open>OutOfRange\<close> whenever \<open>pos + count\<close>
  exceeds the length, for all \<^verbatim>\<open>size_t\<close> arguments. The guard of the source adds the two
  \<^verbatim>\<open>size_t\<close> values with wrap-around: at \<open>pos = 1\<close> and \<open>count = 2 ^ 64 - 1\<close> the sum wraps
  to 0, nothing is thrown, and \<^verbatim>\<open>erase\<close> removes the three characters after position 1
  rather than \<open>count\<close> of them.
\<close>

theorem deletion_wraps:
  "deletion ''ACGT'' 1 18446744073709551615 = (''A'', None) \<and>
   1 + 18446744073709551615 > length ''ACGT'' \<and>
   (18446744073709551615 :: nat) < SIZE_MOD"
  by (simp add: deletion_def string_erase_def SIZE_MOD_def)

section \<open>The scanner computes the reference algorithm\<close>


lemma aligned_stop: "\<not> f + 3 \<le> n \<Longrightarrow> aligned f n = []"
  by (auto simp: aligned_def filter_empty_conv)

lemma aligned_step:
  assumes "f + 3 \<le> n"
  shows "aligned f n = f # aligned (f + 3) n"
proof -
  let ?P = "\<lambda>i. (i - f) mod 3 = 0 \<and> i + 3 \<le> n"
  let ?Q = "\<lambda>i. (i - (f + 3)) mod 3 = 0 \<and> i + 3 \<le> n"
  from assms have split: "[f ..< n] = [f, Suc f, Suc (Suc f)] @ [f + 3 ..< n]"
    by (simp add: upt_conv_Cons numeral_3_eq_3)
  have head: "filter ?P [f, Suc f, Suc (Suc f)] = [f]"
    using assms by simp
  have rest: "filter ?P [f + 3 ..< n] = filter ?Q [f + 3 ..< n]"
  proof (rule filter_cong [OF refl])
    fix i assume "i \<in> set [f + 3 ..< n]"
    then have "f + 3 \<le> i" by simp
    then obtain k where "i = f + 3 + k" by (auto simp: le_iff_add)
    then show "?P i = ?Q i" by simp
  qed
  have "aligned f n = filter ?P [f, Suc f, Suc (Suc f)] @ filter ?P [f + 3 ..< n]"
    unfolding aligned_def split filter_append ..
  also have "\<dots> = [f] @ filter ?Q [f + 3 ..< n]"
    unfolding head rest ..
  also have "\<dots> = f # aligned (f + 3) n"
    unfolding aligned_def by simp
  finally show ?thesis .
qed


lemma substr_3: "j + 3 \<le> length rna \<Longrightarrow> substr rna j 3 = Inr (take 3 (drop j rna))"
  by (simp add: substr_def)

lemma stop_test:
  "(upper sc = stopCodons ! 0 \<or> upper sc = stopCodons ! 1 \<or> upper sc = stopCodons ! 2)
     = is_stop (map toupper sc)"
  unfolding upper_def stopCodons_def is_stop_def by simp

lemma start_test: "(upper sc = startCodon) = (map toupper sc = ''AUG'')"
  unfolding upper_def startCodon_def ..

lemma stop_from_end: "\<not> j + 3 \<le> length rna \<Longrightarrow> stop_from rna j = None"
  by (simp add: stop_from_def aligned_stop)

lemma stop_from_step:
  "j + 3 \<le> length rna \<Longrightarrow>
   stop_from rna j = (if is_stop (codon_at rna j) then Some j else stop_from rna (j + 3))"
  by (simp add: stop_from_def aligned_step)

lemma stop_loop_eq:
  "stop_loop rna i fr j orfs = Inr (orfs @ orf_of_stop i fr (stop_from rna j))"
proof (induction rna i fr j orfs rule: stop_loop.induct)
  case (1 rna i fr j orfs)
  show ?case
  proof (cases "j + 3 \<le> length rna")
    case False
    then have "stop_loop rna i fr j orfs = Inr orfs"
      by (subst stop_loop.simps) simp
    with False show ?thesis
      by (simp add: stop_from_end orf_of_stop_def)
  next
    case True
    note sub = substr_3 [OF True]
    show ?thesis
    proof (cases "is_stop (codon_at rna j)")
      case stop: True
      then have "stop_loop rna i fr j orfs = Inr (orfs @ [\<lparr>start = i, end_pos = j + 3, frame = fr\<rparr>])"
        using True by (subst stop_loop.simps) (simp only: sub stop_test codon_at_def sum.case if_True)
      with stop True show ?thesis
        by (simp add: stop_from_step orf_of_stop_def)
    next
      case nostop: False
      then have t: "\<not> (upper (take 3 (drop j rna)) = stopCodons ! 0 \<or>
                       upper (take 3 (drop j rna)) = stopCodons ! 1 \<or>
                       upper (take 3 (drop j rna)) = stopCodons ! 2)"
        by (simp only: stop_test codon_at_def not_False_eq_True)
      have "stop_loop rna i fr j orfs = stop_loop rna i fr (j + 3) orfs"
        using True t by (subst stop_loop.simps) (simp only: sub sum.case if_True if_False)
      also have "\<dots> = Inr (orfs @ orf_of_stop i fr (stop_from rna (j + 3)))"
        using "1.IH" [OF True sub t] .
      finally show ?thesis
        using nostop True by (simp add: stop_from_step)
    qed
  qed
qed

lemma first_stop_eq: "first_stop rna i = stop_from rna (i + 3)"
  by (simp add: first_stop_def stop_from_def)

lemma orfs_at_eq:
  "orfs_at rna fr i =
     (if codon_at rna i = ''AUG'' then orf_of_stop i fr (stop_from rna (i + 3)) else [])"
  by (simp add: orfs_at_def orf_of_stop_def first_stop_eq)

lemma start_loop_eq:
  "start_loop rna fr i orfs =
     Inr (orfs @ concat (map (orfs_at rna fr) (aligned i (length rna))))"
proof (induction rna fr i orfs rule: start_loop.induct)
  case (1 rna fr i orfs)
  show ?case
  proof (cases "i + 3 \<le> length rna")
    case False
    then have "start_loop rna fr i orfs = Inr orfs"
      by (subst start_loop.simps) simp
    with False show ?thesis
      by (simp add: aligned_stop)
  next
    case True
    note sub = substr_3 [OF True]
    show ?thesis
    proof (cases "codon_at rna i = ''AUG''")
      case isstart: True
      then have t: "upper (take 3 (drop i rna)) = startCodon"
        by (simp only: start_test codon_at_def)
      let ?orfs' = "orfs @ orf_of_stop i fr (stop_from rna (i + 3))"
      have sl: "stop_loop rna i fr (i + 3) orfs = Inr ?orfs'"
        by (rule stop_loop_eq)
      have "start_loop rna fr i orfs = start_loop rna fr (i + 3) ?orfs'"
        using True t by (subst start_loop.simps) (simp only: sub sl sum.case if_True simp_thms)
      also have "\<dots> = Inr (?orfs' @ concat (map (orfs_at rna fr) (aligned (i + 3) (length rna))))"
        using "1.IH"(1) [OF True sub t sl] .
      finally show ?thesis
        using isstart True orfs_at_eq [of rna fr i] by (simp add: aligned_step)
    next
      case nostart: False
      then have t: "upper (take 3 (drop i rna)) \<noteq> startCodon"
        by (simp only: start_test codon_at_def not_False_eq_True)
      have "start_loop rna fr i orfs = start_loop rna fr (i + 3) orfs"
        using True t by (subst start_loop.simps) (simp only: sub sum.case if_True if_False)
      also have "\<dots> = Inr (orfs @ concat (map (orfs_at rna fr) (aligned (i + 3) (length rna))))"
        using "1.IH"(2) [OF True sub t] .
      finally show ?thesis
        using nostart True orfs_at_eq [of rna fr i] by (simp add: aligned_step)
    qed
  qed
qed

lemma frame_loop_3: "frame_loop rna 3 orfs = Inr orfs"
  by (subst frame_loop.simps) simp

lemma frame_loop_step:
  "fr < 3 \<Longrightarrow> frame_loop rna fr orfs = frame_loop rna (fr + 1) (orfs @ frame_orfs rna fr)"
  by (subst frame_loop.simps) (simp add: start_loop_eq frame_orfs_def)

lemma findORFs_reference: "findORFs rna = Inr (reference_ORFs rna)"
proof -
  have "findORFs rna = frame_loop rna 1 (frame_orfs rna 0)"
    unfolding findORFs_def using frame_loop_step [of 0 rna "[]"] by simp
  also have "\<dots> = frame_loop rna 2 (frame_orfs rna 0 @ frame_orfs rna 1)"
    using frame_loop_step [of 1 rna "frame_orfs rna 0"] by simp
  also have "\<dots> = frame_loop rna 3 (frame_orfs rna 0 @ frame_orfs rna 1 @ frame_orfs rna 2)"
    using frame_loop_step [of 2 rna "frame_orfs rna 0 @ frame_orfs rna 1"] by simp
  also have "\<dots> = Inr (reference_ORFs rna)"
    by (simp add: frame_loop_3 reference_ORFs_def)
  finally show ?thesis .
qed

section \<open>What the reported ORFs look like\<close>


lemma aligned_mem:
  "i \<in> set (aligned f n) \<Longrightarrow> f \<le> i \<and> (i - f) mod 3 = 0 \<and> i + 3 \<le> n"
  by (simp add: aligned_def)

lemma first_stop_Some:
  assumes "first_stop rna i = Some j"
  shows "i + 3 \<le> j \<and> (j - (i + 3)) mod 3 = 0 \<and> j + 3 \<le> length rna \<and> is_stop (codon_at rna j)"
proof -
  from assms have "j \<in> set (aligned (i + 3) (length rna))" and "is_stop (codon_at rna j)"
    unfolding first_stop_def by (auto simp: find_Some_iff)
  with aligned_mem [of j "i + 3" "length rna"] show ?thesis by simp
qed

lemma reference_ORFs_mem:
  assumes "x \<in> set (reference_ORFs rna)"
  shows "\<exists>f i j. f \<in> {0, 1, 2} \<and> i \<in> set (aligned (nat f) (length rna)) \<and>
           codon_at rna i = ''AUG'' \<and> first_stop rna i = Some j \<and>
           x = \<lparr>start = i, end_pos = j + 3, frame = f\<rparr>"
proof -
  from assms obtain f where f: "f \<in> {0, 1, 2}" and "x \<in> set (frame_orfs rna f)"
    unfolding reference_ORFs_def by auto
  then obtain i where i: "i \<in> set (aligned (nat f) (length rna))" and xo: "x \<in> set (orfs_at rna f i)"
    unfolding frame_orfs_def by auto
  have "codon_at rna i = ''AUG'' \<and> (\<exists>j. first_stop rna i = Some j \<and>
           x = \<lparr>start = i, end_pos = j + 3, frame = f\<rparr>)"
  proof (cases "codon_at rna i = ''AUG''")
    case False
    with xo show ?thesis by (simp add: orfs_at_def)
  next
    case True
    show ?thesis
    proof (cases "first_stop rna i")
      case None
      with True xo show ?thesis by (simp add: orfs_at_def)
    next
      case (Some j)
      with True xo show ?thesis by (simp add: orfs_at_def)
    qed
  qed
  with f i show ?thesis by blast
qed

lemma reference_ORFs_invariant:
  assumes "x \<in> set (reference_ORFs rna)"
  shows "start x < end_pos x \<and> end_pos x \<le> length rna \<and>
         (end_pos x - start x) mod 3 = 0 \<and> frame x = int (start x mod 3)"
proof -
  from reference_ORFs_mem [OF assms] obtain f i j where
    f: "f \<in> {0, 1, 2}" and i: "i \<in> set (aligned (nat f) (length rna))" and
    st: "first_stop rna i = Some j" and x: "x = \<lparr>start = i, end_pos = j + 3, frame = f\<rparr>"
    by blast
  from first_stop_Some [OF st] have j: "i + 3 \<le> j" "(j - (i + 3)) mod 3 = 0" "j + 3 \<le> length rna"
    by simp_all
  from aligned_mem [OF i] have fi: "nat f \<le> i" "(i - nat f) mod 3 = 0" by simp_all
  from j(1) obtain k where k: "j = i + 3 + k" by (auto simp: le_iff_add)
  with j(2) have "k mod 3 = 0" by simp
  with k have d: "(j + 3 - i) mod 3 = 0" by presburger
  from fi obtain m where m: "i = nat f + m" by (auto simp: le_iff_add)
  with fi(2) have "m mod 3 = 0" by simp
  with m f have "int (i mod 3) = f" by auto presburger+
  with x j d show ?thesis by simp
qed

lemma codon_at_upper: "codon_at rna i = take 3 (drop i (map toupper rna))"
  by (simp add: codon_at_def take_map drop_map)

lemma reference_ORFs_cong:
  assumes "map toupper a = map toupper b"
  shows "reference_ORFs a = reference_ORFs b"
proof -
  from assms have len: "length a = length b" by (rule map_eq_imp_length_eq)
  from assms have cod: "codon_at a = codon_at b" by (simp add: fun_eq_iff codon_at_upper)
  have fs: "first_stop a i = first_stop b i" for i
    unfolding first_stop_def len cod ..
  have oa: "orfs_at a f i = orfs_at b f i" for f i
    unfolding orfs_at_def fs cod ..
  have "frame_orfs a f = frame_orfs b f" for f
    unfolding frame_orfs_def len using oa by presburger
  then show ?thesis unfolding reference_ORFs_def by simp
qed

lemma toupper_idem: "toupper (toupper c) = toupper c"
  by (auto simp add: toupper_def)

lemma codon_char:
  assumes "i + 3 \<le> length rna" "i \<le> k" "k < i + 3"
  shows "toupper (rna ! k) = codon_at rna i ! (k - i)"
proof -
  from assms obtain d where d: "k = i + d" "d < 3" by (auto simp: le_iff_add)
  with assms show ?thesis by (simp add: codon_at_def)
qed

lemma AUG_chars: "d < 3 \<Longrightarrow> ''AUG'' ! d \<in> {CHR ''A'', CHR ''U'', CHR ''G''}"
  by (auto simp: less_Suc_eq numeral_3_eq_3)

lemma stop_chars: "is_stop c \<Longrightarrow> d < 3 \<Longrightarrow> c ! d \<in> {CHR ''A'', CHR ''U'', CHR ''G''}"
  by (auto simp: is_stop_def less_Suc_eq numeral_3_eq_3)

text \<open>
  C1. For every input string, \<open>findORFs\<close> returns, without raising, exactly the list of
  the reference algorithm: frames 0, 1, 2 in this order; within a frame the codon-aligned
  positions \<open>i = f, f + 3, ...\<close> with \<open>i + 3 \<le> length\<close>, ascending; a position holding
  AUG contributes \<open>{start = i, end = j + 3, frame = f}\<close> for the first in-frame stop
  codon at \<open>j \<ge> i + 3\<close>, and nothing when there is none; every position is examined,
  whatever the stop found for an earlier one, so that ORFs sharing a stop codon are all
  reported.
\<close>

theorem findORFs_refines_reference: "findORFs rna = Inr (reference_ORFs rna)"
  by (rule findORFs_reference)

theorem findORFs_refines_reference_witness:
  "findORFs ''AUGUUUUAA'' = Inr [\<lparr>start = 0, end_pos = 9, frame = 0\<rparr>] \<and>
   findORFs ''CAUGAUGCCCUAGAUGC'' =
     Inr [\<lparr>start = 1, end_pos = 13, frame = 1\<rparr>, \<lparr>start = 4, end_pos = 13, frame = 1\<rparr>]"
proof -
  have "reference_ORFs ''AUGUUUUAA'' = [\<lparr>start = 0, end_pos = 9, frame = 0\<rparr>]"
    by code_simp
  moreover have "reference_ORFs ''CAUGAUGCCCUAGAUGC'' =
      [\<lparr>start = 1, end_pos = 13, frame = 1\<rparr>, \<lparr>start = 4, end_pos = 13, frame = 1\<rparr>]"
    by code_simp
  ultimately show ?thesis
    using findORFs_refines_reference [of "''AUGUUUUAA''"]
          findORFs_refines_reference [of "''CAUGAUGCCCUAGAUGC''"]
    by simp
qed

text \<open>
  C5. Every ORF that \<open>findORFs\<close> returns has \<open>0 \<le> start < end \<le> length\<close>, a span
  \<open>end - start\<close> divisible by 3, and \<open>frame = start mod 3\<close>.
\<close>

theorem findORFs_invariant:
  "\<exists>orfs. findORFs rna = Inr orfs \<and>
     (\<forall>x \<in> set orfs. start x < end_pos x \<and> end_pos x \<le> length rna \<and>
        (end_pos x - start x) mod 3 = 0 \<and> frame x = int (start x mod 3))"
proof -
  have "\<forall>x \<in> set (reference_ORFs rna). start x < end_pos x \<and> end_pos x \<le> length rna \<and>
        (end_pos x - start x) mod 3 = 0 \<and> frame x = int (start x mod 3)"
    by (intro ballI reference_ORFs_invariant)
  then show ?thesis
    unfolding findORFs_reference by (intro exI [of _ "reference_ORFs rna"] conjI refl)
qed

theorem findORFs_invariant_witness:
  "\<exists>orfs. findORFs ''CAUGAUGCCCUAGAUGC'' = Inr orfs \<and> orfs \<noteq> [] \<and>
     (\<forall>x \<in> set orfs. start x < end_pos x \<and> end_pos x \<le> 17 \<and>
        (end_pos x - start x) mod 3 = 0 \<and> frame x = int (start x mod 3))"
proof -
  have "findORFs ''CAUGAUGCCCUAGAUGC'' =
      Inr [\<lparr>start = 1, end_pos = 13, frame = 1\<rparr>, \<lparr>start = 4, end_pos = 13, frame = 1\<rparr>]"
    by code_simp
  then show ?thesis
    using findORFs_invariant [of "''CAUGAUGCCCUAGAUGC''"] by auto
qed

text \<open>
  C10. \<open>findORFs\<close> returns a list for every input string, whatever its characters: it
  raises nothing. Two inputs that agree after upper-casing give the same result, so the
  codons are matched without regard to case. Every reported ORF begins at a codon that
  upper-cases to AUG and ends with one that upper-cases to a stop codon, so each
  character of a matched codon upper-cases to A, U or G: a character outside the RNA
  alphabet is never part of one.
\<close>

theorem findORFs_total:
  "(\<exists>orfs. findORFs rna = Inr orfs) \<and>
   (map toupper a = map toupper b \<longrightarrow> findORFs a = findORFs b) \<and>
   (\<forall>orfs x. findORFs rna = Inr orfs \<and> x \<in> set orfs \<longrightarrow>
      upper (take 3 (drop (start x) rna)) = startCodon \<and>
      upper (take 3 (drop (end_pos x - 3) rna)) \<in> set stopCodons \<and>
      (\<forall>k. start x \<le> k \<and> k < start x + 3 \<or> end_pos x - 3 \<le> k \<and> k < end_pos x \<longrightarrow>
           toupper (rna ! k) \<in> {CHR ''A'', CHR ''U'', CHR ''G''}))"
proof (intro conjI allI impI)
  show "\<exists>orfs. findORFs rna = Inr orfs"
    by (simp add: findORFs_reference)
next
  assume "map toupper a = map toupper b"
  then show "findORFs a = findORFs b"
    using reference_ORFs_cong [of a b] by (simp add: findORFs_reference)
next
  fix orfs x
  assume "findORFs rna = Inr orfs \<and> x \<in> set orfs"
  then have "x \<in> set (reference_ORFs rna)"
    by (simp add: findORFs_reference)
  from reference_ORFs_mem [OF this] obtain f i j where
    i: "i \<in> set (aligned (nat f) (length rna))" and aug: "codon_at rna i = ''AUG''" and
    st: "first_stop rna i = Some j" and x: "x = \<lparr>start = i, end_pos = j + 3, frame = f\<rparr>"
    by blast
  from first_stop_Some [OF st] have j: "j + 3 \<le> length rna" "is_stop (codon_at rna j)"
    by simp_all
  from aligned_mem [OF i] have i3: "i + 3 \<le> length rna" by simp
  show "upper (take 3 (drop (start x) rna)) = startCodon"
    using aug x by (simp add: start_test codon_at_def)
  show "upper (take 3 (drop (end_pos x - 3) rna)) \<in> set stopCodons"
    using j(2) x by (simp add: upper_def stopCodons_def is_stop_def codon_at_def)
  fix k
  assume "start x \<le> k \<and> k < start x + 3 \<or> end_pos x - 3 \<le> k \<and> k < end_pos x"
  then consider "i \<le> k" "k < i + 3" | "j \<le> k" "k < j + 3"
    using x by auto
  then show "toupper (rna ! k) \<in> {CHR ''A'', CHR ''U'', CHR ''G''}"
  proof cases
    case 1
    then have "k - i < 3" by simp
    with codon_char [OF i3 1] aug AUG_chars [of "k - i"] show ?thesis by simp
  next
    case 2
    then have "k - j < 3" by simp
    with codon_char [OF j(1) 2] stop_chars [OF j(2), of "k - j"] show ?thesis by simp
  qed
qed

theorem findORFs_total_witness:
  "findORFs ''auguuuUaa'' = findORFs ''AUGUUUUAA'' \<and>
   findORFs ''auguuuUaa'' = Inr [\<lparr>start = 0, end_pos = 9, frame = 0\<rparr>] \<and>
   upper (take 3 (drop 0 ''auguuuUaa'')) = startCodon \<and>
   toupper (''auguuuUaa'' ! 7) \<in> {CHR ''A'', CHR ''U'', CHR ''G''} \<and>
   (\<exists>orfs. findORFs ''AUGxN?UAA'' = Inr orfs)"
proof -
  let ?x = "\<lparr>start = 0, end_pos = 9, frame = 0\<rparr>"
  have up: "map toupper ''auguuuUaa'' = map toupper ''AUGUUUUAA''"
    by code_simp
  have ev: "findORFs ''auguuuUaa'' = Inr [?x]"
    by code_simp
  note t = findORFs_total [where rna = "''auguuuUaa''" and a = "''auguuuUaa''" and b = "''AUGUUUUAA''"]
  from t up have 1: "findORFs ''auguuuUaa'' = findORFs ''AUGUUUUAA''" by blast
  from ev have mem: "findORFs ''auguuuUaa'' = Inr [?x] \<and> ?x \<in> set [?x]" by simp
  note c = t [THEN conjunct2, THEN conjunct2, rule_format, OF mem]
  from c have 3: "upper (take 3 (drop 0 ''auguuuUaa'')) = startCodon" by simp
  have "start ?x \<le> 7 \<and> 7 < start ?x + 3 \<or> end_pos ?x - 3 \<le> 7 \<and> 7 < end_pos ?x" by simp
  with c have 4: "toupper (''auguuuUaa'' ! 7) \<in> {CHR ''A'', CHR ''U'', CHR ''G''}" by blast
  from findORFs_total [where rna = "''AUGxN?UAA''"] have 5: "\<exists>orfs. findORFs ''AUGxN?UAA'' = Inr orfs"
    by blast
  from 1 ev 3 4 5 show ?thesis by blast
qed

section \<open>The batch driver stays within bounds\<close>


lemma uniform_int_range: "a \<le> b \<Longrightarrow> a \<le> uniform_int a b r \<and> uniform_int a b r \<le> b"
proof -
  assume "a \<le> b"
  have "r mod (b - a + 1) < b - a + 1" by simp
  with \<open>a \<le> b\<close> show ?thesis unfolding uniform_int_def by linarith
qed

lemma uniform_int_onto: "a \<le> v \<Longrightarrow> v \<le> b \<Longrightarrow> uniform_int a b (v - a) = v"
  by (simp add: uniform_int_def)

lemma cast_typeDist: "cast_MutationType (typeDist r) \<noteq> None"
proof -
  have "typeDist r \<le> 2" using uniform_int_range [of 0 2 r] by (simp add: typeDist_def)
  then show ?thesis by (simp add: cast_MutationType_def)
qed

lemma pos_in_range: "seq \<noteq> [] \<Longrightarrow> uniform_int 0 (length seq - 1) r < length seq"
proof -
  assume "seq \<noteq> []"
  then have "0 < length seq" by simp
  moreover have "uniform_int 0 (length seq - 1) r \<le> length seq - 1"
    using uniform_int_range [of 0 "length seq - 1" r] by simp
  ultimately show ?thesis by linarith
qed

lemma mutate_once_next_edit:
  "mutate_once g m (seq, k) =
     (case next_edit g m (seq, k) of
        (Some c, k') \<Rightarrow> (case apply_edit seq c of (seq', e) \<Rightarrow> ((seq', k'), e))
      | (None, k') \<Rightarrow> ((seq, k'), None))"
  unfolding mutate_once_def next_edit_def
  by (simp add: Let_def split: option.split MutationType.split prod.split)

lemma next_edit_in_bounds:
  assumes "seq \<noteq> []"
  shows "\<exists>c k'. next_edit g m (seq, k) = (Some c, k') \<and> in_bounds seq c"
proof -
  let ?pos = "uniform_int 0 (length seq - 1) (g (k + 1))"
  have pos: "?pos < length seq" using assms by (rule pos_in_range)
  obtain t where t: "cast_MutationType (typeDist (g k)) = Some t"
    using cast_typeDist [of "g k"] by auto
  show ?thesis
  proof (cases t)
    case Point
    with t pos show ?thesis by (simp add: next_edit_def Let_def)
  next
    case Insertion
    with t pos show ?thesis by (simp add: next_edit_def Let_def split: prod.split)
  next
    case Deletion
    with t pos show ?thesis by (simp add: next_edit_def Let_def)
  qed
qed

lemma apply_in_bounds:
  assumes "in_bounds seq c"
  shows "snd (apply_edit seq c) = None"
proof (cases c)
  case (PointCall pos b)
  with assms show ?thesis by (simp add: pointMutation_def)
next
  case (InsertionCall pos ins)
  with assms show ?thesis by (simp add: insertion_def string_insert_def)
next
  case (DeletionCall pos len)
  with assms show ?thesis by (simp add: deletion_in_range)
qed

lemma mutate_once_ok:
  assumes "seq \<noteq> []"
  shows "\<exists>c k' seq'. next_edit g m (seq, k) = (Some c, k') \<and> in_bounds seq c \<and>
           apply_edit seq c = (seq', None) \<and> mutate_once g m (seq, k) = ((seq', k'), None)"
proof -
  from next_edit_in_bounds [OF assms] obtain c k' where
    ne: "next_edit g m (seq, k) = (Some c, k')" and ib: "in_bounds seq c" by blast
  from apply_in_bounds [OF ib] obtain seq' where ap: "apply_edit seq c = (seq', None)"
    by (cases "apply_edit seq c") simp
  have "mutate_once g m (seq, k) = ((seq', k'), None)"
    by (simp add: mutate_once_next_edit ne ap)
  with ne ib ap show ?thesis by blast
qed


lemma logged_loop_spec:
  "\<exists>st' es. logged_loop g m n i sl = ((st', snd sl @ es), None) \<and>
      mutation_loop g m n i (fst sl) = (st', None) \<and>
      length es \<le> n - i \<and> (length es < n - i \<longrightarrow> fst st' = []) \<and>
      replay (fst (fst sl)) es = (fst st', None) \<and> all_in_bounds (fst (fst sl)) es"
proof (induction g m n i sl rule: logged_loop.induct)
  case (1 g m n i sl)
  show ?case
  proof (cases "i < n \<and> fst (fst sl) \<noteq> []")
    case False
    then have a: "logged_loop g m n i sl = (sl, None)"
      by (subst logged_loop.simps) auto
    from False have b: "mutation_loop g m n i (fst sl) = (fst sl, None)"
      by (subst mutation_loop.simps) auto
    from False have c: "0 < n - i \<longrightarrow> fst (fst sl) = []" by auto
    show ?thesis
      by (rule exI [of _ "fst sl"], rule exI [of _ "[]"]) (simp add: a b c)
  next
    case True
    then have lt: "i < n" and ne: "fst (fst sl) \<noteq> []" by simp_all
    obtain seq k where st: "fst sl = (seq, k)" by (cases "fst sl")
    with ne have "seq \<noteq> []" by simp
    from mutate_once_ok [OF this, of g m k] obtain c k' seq' where
      nx: "next_edit g m (seq, k) = (Some c, k')" and ib: "in_bounds seq c" and
      ap: "apply_edit seq c = (seq', None)" and
      mo: "mutate_once g m (seq, k) = ((seq', k'), None)" by blast
    let ?sl1 = "((seq', k'), snd sl @ [c])"
    have lg: "snd sl @ list_of_option (fst (next_edit g m (fst sl))) = snd sl @ [c]"
      by (simp add: st nx list_of_option_def)
    have a: "logged_loop g m n i sl = logged_loop g m n (i + 1) ?sl1"
      using lt ne by (subst logged_loop.simps) (simp add: st mo nx list_of_option_def)
    have b: "mutation_loop g m n i (fst sl) = mutation_loop g m n (i + 1) (seq', k')"
      using lt ne by (subst mutation_loop.simps) (simp add: st mo)
    have mo': "((seq', k'), None) = mutate_once g m (fst sl)" by (simp add: st mo)
    from "1.IH" [OF lt ne mo' refl] lg obtain st' es where
      ih: "logged_loop g m n (i + 1) ?sl1 = ((st', (snd sl @ [c]) @ es), None)"
          "mutation_loop g m n (i + 1) (seq', k') = (st', None)"
          "length es \<le> n - (i + 1)" "length es < n - (i + 1) \<longrightarrow> fst st' = []"
          "replay seq' es = (fst st', None)" "all_in_bounds seq' es"
      by auto
    show ?thesis
    proof (intro exI [of _ st'] exI [of _ "c # es"] conjI)
      show "logged_loop g m n i sl = ((st', snd sl @ c # es), None)"
        using a ih(1) by simp
      show "mutation_loop g m n i (fst sl) = (st', None)"
        using b ih(2) by simp
      show "length (c # es) \<le> n - i" using ih(3) lt by simp
      show "length (c # es) < n - i \<longrightarrow> fst st' = []" using ih(4) lt by auto
      show "replay (fst (fst sl)) (c # es) = (fst st', None)"
        using ih(5) by (simp add: st ap)
      show "all_in_bounds (fst (fst sl)) (c # es)"
        using ih(6) ib by (simp add: st ap)
    qed
  qed
qed

lemma driver_spec:
  "\<exists>seq'. simulateRandomMutations g seq n m = (seq', None) \<and>
      length (applied_edits g seq n m) \<le> n \<and>
      (length (applied_edits g seq n m) < n \<longrightarrow> seq = [] \<or> seq' = []) \<and>
      replay seq (applied_edits g seq n m) = (seq', None) \<and>
      all_in_bounds seq (applied_edits g seq n m)"
proof (cases "seq = [] \<or> n = 0")
  case True
  then show ?thesis
    by (auto simp: simulateRandomMutations_def applied_edits_def)
next
  case False
  from logged_loop_spec [of g m n 0 "((seq, 0), [])"] obtain st' es where
    r: "logged_loop g m n 0 ((seq, 0), []) = ((st', es), None)"
       "mutation_loop g m n 0 (seq, 0) = (st', None)"
       "length es \<le> n" "length es < n \<longrightarrow> fst st' = []"
       "replay seq es = (fst st', None)" "all_in_bounds seq es"
    by auto
  from False r(1) have e: "applied_edits g seq n m = es"
    by (simp add: applied_edits_def)
  from False r(2) have s: "simulateRandomMutations g seq n m = (fst st', None)"
    by (simp add: simulateRandomMutations_def split: prod.split)
  from r s show ?thesis unfolding e by simp
qed

lemmas driver_eval =
  simulateRandomMutations_def applied_edits_def mutation_loop.simps logged_loop.simps
  mutate_once_def next_edit_def typeDist_def baseDist_def indelSizeDist_def uniform_int_def
  cast_MutationType_def draws_of_def bases_def ins_loop.simps pointMutation_def insertion_def
  string_insert_def deletion_def string_erase_def SIZE_MOD_def Let_def list_of_option_def

text \<open>
  C2. For every generator, sequence, \<open>numMutations\<close> and \<open>maxIndelSize\<close>: on an empty
  sequence, and with \<open>numMutations = 0\<close>, the driver changes nothing and applies no edit;
  otherwise it returns without any exception (so without \<open>OutOfRange\<close>), applies at most
  \<open>numMutations\<close> edits, applies fewer only when the sequence has become empty, and
  every call it makes to a primitive is within bounds for the sequence of that moment:
  the position is below the length, and a deletion ends at or before the end.
\<close>

theorem simulateRandomMutations_safe:
  "simulateRandomMutations g [] n m = ([], None) \<and> applied_edits g [] n m = [] \<and>
   simulateRandomMutations g seq 0 m = (seq, None) \<and> applied_edits g seq 0 m = [] \<and>
   snd (simulateRandomMutations g seq n m) = None \<and>
   length (applied_edits g seq n m) \<le> n \<and>
   (seq \<noteq> [] \<and> length (applied_edits g seq n m) < n \<longrightarrow>
      fst (simulateRandomMutations g seq n m) = []) \<and>
   all_in_bounds seq (applied_edits g seq n m)"
proof -
  from driver_spec [of g seq n m] obtain seq' where
    r: "simulateRandomMutations g seq n m = (seq', None)"
       "length (applied_edits g seq n m) \<le> n"
       "length (applied_edits g seq n m) < n \<longrightarrow> seq = [] \<or> seq' = []"
       "all_in_bounds seq (applied_edits g seq n m)"
    by blast
  have "simulateRandomMutations g [] n m = ([], None)" "applied_edits g [] n m = []"
       "simulateRandomMutations g seq 0 m = (seq, None)" "applied_edits g seq 0 m = []"
    by (simp_all add: simulateRandomMutations_def applied_edits_def)
  moreover from r(3) have "seq \<noteq> [] \<and> length (applied_edits g seq n m) < n \<longrightarrow> seq' = []"
    by blast
  ultimately show ?thesis using r(1,2,4) by simp
qed

theorem simulateRandomMutations_safe_witness:
  "simulateRandomMutations (draws_of [2]) ''A'' 3 3 = ([], None) \<and>
   length (applied_edits (draws_of [2]) ''A'' 3 3) < 3 \<and>
   snd (simulateRandomMutations (draws_of [1, 2, 1, 3, 2, 0, 1, 1, 2, 3, 1]) ''ACGT'' 3 2) = None \<and>
   all_in_bounds ''ACGT'' [InsertionCall 2 ''GC'', PointCall 1 CHR ''T'', DeletionCall 3 2]"
proof -
  let ?g = "draws_of [1, 2, 1, 3, 2, 0, 1, 1, 2, 3, 1]"
  have e1: "applied_edits (draws_of [2]) ''A'' 3 3 = [DeletionCall 0 1]"
    by (simp add: driver_eval)
  have e2: "applied_edits ?g ''ACGT'' 3 2 =
      [InsertionCall 2 ''GC'', PointCall 1 CHR ''T'', DeletionCall 3 2]"
    by (simp add: driver_eval)
  have h: "''A'' \<noteq> [] \<and> length (applied_edits (draws_of [2]) ''A'' 3 3) < 3"
    by (simp add: e1)
  note t1 = simulateRandomMutations_safe [where g = "draws_of [2]" and seq = "''A''" and n = 3 and m = 3]
  note t2 = simulateRandomMutations_safe [where g = ?g and seq = "''ACGT''" and n = 3 and m = 2]
  from t1 h have "simulateRandomMutations (draws_of [2]) ''A'' 3 3 = ([], None)"
    by (simp add: prod_eq_iff)
  moreover from t2 have "snd (simulateRandomMutations ?g ''ACGT'' 3 2) = None"
    by blast
  moreover from t2 have "all_in_bounds ''ACGT'' (applied_edits ?g ''ACGT'' 3 2)"
    by blast
  ultimately show ?thesis using h unfolding e2 by blast
qed

text \<open>
  C3. The specification has the driver return, besides the mutated sequence, the list of the
  edits it applied. The driver returns nothing but the sequence: two runs on the same
  input that apply different edits leave the same result, from which the edits cannot be
  told.
\<close>

theorem simulateRandomMutations_hides_edits:
  "simulateRandomMutations (draws_of [0, 0]) ''AA'' 1 3 =
     simulateRandomMutations (draws_of [0, 1]) ''AA'' 1 3 \<and>
   applied_edits (draws_of [0, 0]) ''AA'' 1 3 \<noteq> applied_edits (draws_of [0, 1]) ''AA'' 1 3"
  by (simp add: driver_eval)

text \<open>
  C3, amended. The driver returns the mutated sequence only. That sequence is the input
  with the edits of the run applied to it one after the other, in the order of their
  application, each through its primitive and none of them failing.
\<close>

theorem simulateRandomMutations_replays_edits:
  "simulateRandomMutations g seq n m = replay seq (applied_edits g seq n m) \<and>
   snd (replay seq (applied_edits g seq n m)) = None"
  using driver_spec [of g seq n m] by auto

theorem simulateRandomMutations_replays_edits_witness:
  "simulateRandomMutations (draws_of [1, 2, 1, 3, 2, 0, 1, 1, 2, 3, 1]) ''ACGT'' 3 2 =
     replay ''ACGT'' [InsertionCall 2 ''GC'', PointCall 1 CHR ''T'', DeletionCall 3 2]"
proof -
  let ?g = "draws_of [1, 2, 1, 3, 2, 0, 1, 1, 2, 3, 1]"
  have e2: "applied_edits ?g ''ACGT'' 3 2 =
      [InsertionCall 2 ''GC'', PointCall 1 CHR ''T'', DeletionCall 3 2]"
    by (simp add: driver_eval)
  from simulateRandomMutations_replays_edits [where g = ?g and seq = "''ACGT''" and n = 3 and m = 2]
  show ?thesis unfolding e2 by blast
qed

section \<open>Transcription and back\<close>

lemma toupper_bases [simp]:
  "toupper CHR ''A'' = CHR ''A''" "toupper CHR ''T'' = CHR ''T''"
  "toupper CHR ''C'' = CHR ''C''" "toupper CHR ''G'' = CHR ''G''"
  "toupper CHR ''U'' = CHR ''U''"
  by (simp_all add: toupper_def)

lemma transcribe_loop_valid:
  "set dna \<subseteq> {CHR ''A'', CHR ''T'', CHR ''C'', CHR ''G''} \<Longrightarrow>
   transcribe_loop dna rna = Inr (rna @ map rna_base dna)"
  by (induction dna arbitrary: rna) (auto simp: rna_base_def)

lemma reverse_loop_valid:
  "set dna \<subseteq> {CHR ''A'', CHR ''T'', CHR ''C'', CHR ''G''} \<Longrightarrow>
   reverse_loop (map rna_base dna) acc = Inr (acc @ dna)"
  by (induction dna arbitrary: acc) (auto simp: rna_base_def)

text \<open>
  C9. For every DNA string over the upper-case letters A, T, C and G, \<open>transcribeDNA\<close>
  succeeds, and \<open>reverseTranscribe\<close> of its result succeeds and gives the DNA string
  back.
\<close>

theorem transcription_round_trip:
  assumes "set dna \<subseteq> {CHR ''A'', CHR ''T'', CHR ''C'', CHR ''G''}"
  shows "\<exists>rna. transcribeDNA dna = Inr rna \<and> reverseTranscribe rna = Inr dna"
  using assms
  by (simp add: transcribeDNA_def reverseTranscribe_def transcribe_loop_valid reverse_loop_valid)

theorem transcription_round_trip_witness:
  "transcribeDNA ''GATTACA'' = Inr ''GAUUACA'' \<and> reverseTranscribe ''GAUUACA'' = Inr ''GATTACA''"
proof -
  have h: "set ''GATTACA'' \<subseteq> {CHR ''A'', CHR ''T'', CHR ''C'', CHR ''G''}" by simp
  have e: "transcribeDNA ''GATTACA'' = Inr ''GAUUACA''"
    by (simp add: transcribeDNA_def Let_def)
  from transcription_round_trip [OF h] e show ?thesis by auto
qed

section \<open>Codon usage counts every codon once\<close>

lemma codon_loop_step:
  assumes "j < 3" and "toupper (rna ! (i + j)) \<in> {CHR ''A'', CHR ''U'', CHR ''C'', CHR ''G''}"
  shows "codon_loop rna i j cod = codon_loop rna i (Suc j) (cod @ [toupper (rna ! (i + j))])"
  by (subst codon_loop.simps) (use assms in \<open>auto simp: Let_def\<close>)

lemma codon_loop_end: "codon_loop rna i (Suc (Suc (Suc 0))) cod = Inr cod"
  by (subst codon_loop.simps) simp

lemma codon_loop_valid:
  assumes "i + 3 \<le> length rna"
    and "\<forall>c \<in> set rna. toupper c \<in> {CHR ''A'', CHR ''U'', CHR ''C'', CHR ''G''}"
  shows "codon_loop rna i 0 [] =
           Inr [toupper (rna ! i), toupper (rna ! (i + 1)), toupper (rna ! (i + 2))]"
proof -
  have v: "toupper (rna ! (i + d)) \<in> {CHR ''A'', CHR ''U'', CHR ''C'', CHR ''G''}" if "d < 3" for d
    using assms that by (auto simp: nth_mem)
  have "codon_loop rna i 0 [] = codon_loop rna i (Suc 0) ([] @ [toupper (rna ! (i + 0))])"
    by (rule codon_loop_step) (use v [of 0] in simp_all)
  also have "\<dots> = codon_loop rna i (Suc (Suc 0))
      (([] @ [toupper (rna ! (i + 0))]) @ [toupper (rna ! (i + Suc 0))])"
    by (rule codon_loop_step) (use v [of "Suc 0"] in simp_all)
  also have "\<dots> = codon_loop rna i (Suc (Suc (Suc 0)))
      ((([] @ [toupper (rna ! (i + 0))]) @ [toupper (rna ! (i + Suc 0))]) @
        [toupper (rna ! (i + Suc (Suc 0)))])"
    by (rule codon_loop_step) (use v [of "Suc (Suc 0)"] in simp_all)
  also have "\<dots> = Inr [toupper (rna ! i), toupper (rna ! (i + 1)), toupper (rna ! (i + 2))]"
    by (simp add: codon_loop_end numeral_2_eq_2)
  finally show ?thesis .
qed

lemma codon_loop_valid':
  assumes "i + 3 \<le> length rna"
    and "\<forall>c \<in> set rna. toupper c \<in> {CHR ''A'', CHR ''U'', CHR ''C'', CHR ''G''}"
  shows "\<exists>codon. codon_loop rna i 0 [] = Inr codon \<and> valid_codon codon"
proof -
  have v: "toupper (rna ! (i + d)) \<in> {CHR ''A'', CHR ''U'', CHR ''C'', CHR ''G''}" if "d < 3" for d
    using assms that by (auto simp: nth_mem)
  from v [of 0] v [of 1] v [of 2] codon_loop_valid [OF assms] show ?thesis
    by (simp add: valid_codon_def)
qed

lemma dom_increment: "dom (increment usage codon) = insert codon (dom usage)"
  by (simp add: increment_def)

lemma total_count_increment:
  assumes "finite (dom usage)"
  shows "total_count (increment usage codon) = total_count usage + 1"
proof (cases "usage codon")
  case None
  then have notin: "codon \<notin> dom usage" by (simp add: domIff)
  have "total_count (increment usage codon) =
        the (increment usage codon codon) + (\<Sum>k \<in> dom usage. the (increment usage codon k))"
    unfolding total_count_def dom_increment using assms notin by simp
  also have "(\<Sum>k \<in> dom usage. the (increment usage codon k)) = (\<Sum>k \<in> dom usage. the (usage k))"
    using notin by (intro sum.cong refl) (auto simp: increment_def)
  finally have "total_count (increment usage codon) =
      the (increment usage codon codon) + total_count usage"
    unfolding total_count_def .
  moreover have "the (increment usage codon codon) = 1"
    using None by (simp add: increment_def)
  ultimately show ?thesis by simp
next
  case (Some c)
  then have isin: "codon \<in> dom usage" by (simp add: domIff)
  then have d: "insert codon (dom usage) = dom usage" by auto
  have "total_count (increment usage codon) =
        the (increment usage codon codon) + (\<Sum>k \<in> dom usage - {codon}. the (increment usage codon k))"
    unfolding total_count_def dom_increment d using assms isin by (simp add: sum.remove)
  also have "(\<Sum>k \<in> dom usage - {codon}. the (increment usage codon k)) =
             (\<Sum>k \<in> dom usage - {codon}. the (usage k))"
    by (intro sum.cong refl) (auto simp: increment_def)
  also have "the (increment usage codon codon) = the (usage codon) + 1"
    using Some by (simp add: increment_def)
  finally have "total_count (increment usage codon) =
      (the (usage codon) + (\<Sum>k \<in> dom usage - {codon}. the (usage k))) + 1" by simp
  also have "the (usage codon) + (\<Sum>k \<in> dom usage - {codon}. the (usage k)) = total_count usage"
    unfolding total_count_def using assms isin by (simp add: sum.remove)
  finally show ?thesis .
qed

lemma usage_loop_valid:
  assumes "\<forall>c \<in> set rna. toupper c \<in> {CHR ''A'', CHR ''U'', CHR ''C'', CHR ''G''}"
    and "finite (dom usage)" and "\<forall>k \<in> dom usage. valid_codon k"
  shows "\<exists>u. usage_loop rna i usage = Inr u \<and> finite (dom u) \<and>
           total_count u = total_count usage + (length rna - i) div 3 \<and>
           (\<forall>k \<in> dom u. valid_codon k)"
  using assms
proof (induction rna i usage rule: usage_loop.induct)
  case (1 rna i usage)
  show ?case
  proof (cases "i + 3 \<le> length rna")
    case False
    then have "usage_loop rna i usage = Inr usage"
      by (subst usage_loop.simps) simp
    moreover from False have "(length rna - i) div 3 = 0" by simp
    ultimately show ?thesis using "1.prems" by simp
  next
    case True
    from codon_loop_valid' [OF True "1.prems"(1)] obtain codon where
      cl: "codon_loop rna i 0 [] = Inr codon" and vc: "valid_codon codon" by blast
    let ?u1 = "increment usage codon"
    have f1: "finite (dom ?u1)" using "1.prems"(2) by (simp add: dom_increment)
    have v1: "\<forall>k \<in> dom ?u1. valid_codon k" using "1.prems"(3) vc by (simp add: dom_increment)
    from "1.IH" [OF True cl "1.prems"(1) f1 v1] obtain u where
      u: "usage_loop rna (i + 3) ?u1 = Inr u" "finite (dom u)"
         "total_count u = total_count ?u1 + (length rna - (i + 3)) div 3"
         "\<forall>k \<in> dom u. valid_codon k" by blast
    have "usage_loop rna i usage = Inr u"
      using True by (subst usage_loop.simps) (simp add: cl u(1))
    moreover have "total_count u = total_count usage + (length rna - i) div 3"
    proof -
      from True obtain r where r: "length rna = i + 3 + r" by (auto simp: le_iff_add)
      then have "(length rna - i) div 3 = 1 + (length rna - (i + 3)) div 3" by simp
      with u(3) total_count_increment [OF "1.prems"(2), of codon] show ?thesis by simp
    qed
    ultimately show ?thesis using u(2,4) by blast
  qed
qed

text \<open>
  C6. For every string whose characters all upper-case to A, U, C or G and whose length
  is a multiple of 3, \<open>codonUsage\<close> succeeds; the map it returns has finitely many keys,
  each a codon of three upper-case RNA letters, and its counts add up to a third of the
  length.
\<close>

theorem codonUsage_total:
  assumes "\<forall>c \<in> set rna. toupper c \<in> {CHR ''A'', CHR ''U'', CHR ''C'', CHR ''G''}"
    and "length rna mod 3 = 0"
  shows "\<exists>usage. codonUsage rna = Inr usage \<and> finite (dom usage) \<and>
           total_count usage = length rna div 3 \<and>
           (\<forall>k \<in> dom usage. length k = 3 \<and> set k \<subseteq> {CHR ''A'', CHR ''U'', CHR ''C'', CHR ''G''})"
proof -
  from usage_loop_valid [OF assms(1), of Map.empty 0] obtain u where
    "usage_loop rna 0 Map.empty = Inr u" "finite (dom u)"
    "total_count u = total_count Map.empty + length rna div 3" "\<forall>k \<in> dom u. valid_codon k"
    by auto
  with assms(2) show ?thesis
    by (auto simp: codonUsage_def total_count_def valid_codon_def)
qed

theorem codonUsage_total_witness:
  "\<exists>usage. codonUsage ''augGCCAUG'' = Inr usage \<and> finite (dom usage) \<and> total_count usage = 3"
proof -
  have h1: "\<forall>c \<in> set ''augGCCAUG''. toupper c \<in> {CHR ''A'', CHR ''U'', CHR ''C'', CHR ''G''}"
    by code_simp
  have h2: "length ''augGCCAUG'' mod 3 = 0" by simp
  from codonUsage_total [OF h1 h2] show ?thesis by auto
qed

end
